theory Spec2Isabelle
  imports Main "HOL-Library.AList" "HOL-Library.Word"
begin

section \<open>Values, objects and the store\<close>

text \<open>
  The package \<^verbatim>\<open>requestmod\<close> works on pointers: a request is a \<^verbatim>\<open>*http.Request\<close>, its
  \<^verbatim>\<open>Header\<close> is a Go map (a reference, possibly nil) from a name to a slice of strings, and a
  slice is a window on a backing array. What the package promises is about aliasing, so
  the model has an explicit store. An object lives at an index of a list; allocating
  appends to the list, so the new address is the old length and is different from every
  address already in use.
\<close>

type_synonym addr = nat
type_synonym byte = "8 word"

text \<open>A Go \<^verbatim>\<open>error\<close> value; \<^verbatim>\<open>nil\<close> is \<open>None\<close> of \<open>error option\<close>. \<open>EOF\<close> is \<^verbatim>\<open>io.EOF\<close>.\<close>

datatype error = EOF | Err string

text \<open>A call either returns or panics (a nil dereference, a write to a nil map, an index
  out of range).\<close>

datatype 'a res = Panicked | Returned 'a

text \<open>A \<^verbatim>\<open>[]string\<close>: nil, or the backing array, the offset of the first element and the
  length. The capacity extends to the end of the backing array.\<close>

datatype slice = SNil | SRef addr nat nat

text \<open>The fields of \<^verbatim>\<open>http.Request\<close>: \<open>URL\<close> and \<open>ReqBody\<close> are handles of objects this
  package never looks into; \<open>Header\<close> is the reference to the header map, \<open>None\<close> when the map
  is nil.\<close>

record Request =
  Method :: string
  URL :: addr
  ReqBody :: addr
  Header :: "addr option"

text \<open>The store: request objects, header maps (a map object is an association list, read
  with \<open>map_of\<close> and written with \<open>AList.update\<close>) and backing arrays. \<open>slack\<close> is the
  allocator's rounding: an array allocated for \<open>n\<close> elements gets \<open>slack n\<close> spare ones,
  as Go's \<^verbatim>\<open>append\<close> may allocate more capacity than it needs.\<close>

record heap =
  reqs :: "Request list"
  hdrs :: "(string \<times> slice) list list"
  arrs :: "string list list"
  slack :: "nat \<Rightarrow> nat"

definition hdr_at :: "heap \<Rightarrow> addr \<Rightarrow> (string \<times> slice) list" where
  "hdr_at h a = (if a < length (hdrs h) then hdrs h ! a else [])"

definition arr_at :: "heap \<Rightarrow> addr \<Rightarrow> string list" where
  "arr_at h a = (if a < length (arrs h) then arrs h ! a else [])"

text \<open>The elements of a slice.\<close>

definition read_slice :: "heap \<Rightarrow> slice \<Rightarrow> string list" where
  "read_slice h s = (case s of SNil \<Rightarrow> [] | SRef a off n \<Rightarrow> take n (drop off (arr_at h a)))"

text \<open>Allocation of a backing array holding \<open>vals\<close>, with \<open>spare\<close> unused elements after
  them.\<close>

definition new_array :: "heap \<Rightarrow> string list \<Rightarrow> nat \<Rightarrow> heap \<times> addr" where
  "new_array h vals spare =
     (h\<lparr>arrs := arrs h @ [vals @ replicate spare []]\<rparr>, length (arrs h))"

text \<open>\<^verbatim>\<open>append([]string(nil), vals...)\<close>: appending nothing to the nil slice gives the nil
  slice back; otherwise a new array is allocated.\<close>

definition append_nil :: "heap \<Rightarrow> string list \<Rightarrow> heap \<times> slice" where
  "append_nil h vals =
     (if vals = [] then (h, SNil)
      else let (h', a) = new_array h vals (slack h (length vals))
           in (h', SRef a 0 (length vals)))"

text \<open>\<^verbatim>\<open>append(s, v)\<close>: written in place when the backing array has room after the slice,
  into a new array otherwise.\<close>

definition append_one :: "heap \<Rightarrow> slice \<Rightarrow> string \<Rightarrow> heap \<times> slice" where
  "append_one h s v =
     (case s of
        SNil \<Rightarrow> (let (h', a) = new_array h [v] (slack h 1) in (h', SRef a 0 1))
      | SRef a off n \<Rightarrow>
          if off + n < length (arr_at h a)
          then (h\<lparr>arrs := (arrs h)[a := (arrs h ! a)[off + n := v]]\<rparr>, SRef a off (Suc n))
          else (let (h', a') = new_array h (read_slice h s @ [v]) (slack h (Suc n))
                in (h', SRef a' 0 (Suc (length (read_slice h s))))))"

text \<open>\<^verbatim>\<open>m[k] = s\<close> on the (non-nil) map object at \<open>hm\<close>.\<close>

definition map_store :: "heap \<Rightarrow> addr \<Rightarrow> string \<Rightarrow> slice \<Rightarrow> heap" where
  "map_store h hm k s = h\<lparr>hdrs := (hdrs h)[hm := AList.update k s (hdrs h ! hm)]\<rparr>"

section \<open>cloneRequest\<close>

text \<open>
  \<^verbatim>\<open>
  func cloneRequest(orig *http.Request) *http.Request {
      mod := new(http.Request)
      *mod = *orig
      mod.Header = make(http.Header, len(orig.Header))
      for k, s := range orig.Header {
          mod.Header[k] = append([]string(nil), s...)
      }
      return mod
  }
  \<close>
  The body of the loop is \<open>clone_entry\<close>. \<^verbatim>\<open>range\<close> visits every key of the map once, with
  the value the map holds for it: the entries of \<open>AList.clearjunk\<close>. A nil map has no entry.
  Dereferencing an \<open>orig\<close> that is no object panics.
\<close>

definition clone_entry :: "addr \<Rightarrow> heap \<Rightarrow> string \<times> slice \<Rightarrow> heap" where
  "clone_entry hm h e =
     (let (h', s') = append_nil h (read_slice h (snd e)) in map_store h' hm (fst e) s')"

definition cloneRequest :: "heap \<Rightarrow> addr \<Rightarrow> (heap \<times> addr) res" where
  "cloneRequest h orig =
     (if orig < length (reqs h) then
        let r = reqs h ! orig;
            modr = length (reqs h);
            hm = length (hdrs h);
            h1 = h\<lparr>reqs := reqs h @ [r\<lparr>Header := Some hm\<rparr>], hdrs := hdrs h @ [[]]\<rparr>;
            entries = (case Header r of None \<Rightarrow> [] | Some a \<Rightarrow> AList.clearjunk (hdr_at h a))
        in Returned (foldl (clone_entry hm) h1 entries, modr)
      else Panicked)"

section \<open>Request visitors\<close>

text \<open>
  \<^verbatim>\<open>type RequestVisitor func(req *http.Request) error\<close>. A visitor is user code; the ones
  modelled here look at the store and at the working request, then mutate the working
  request through its header map, as the examples of the package do, and return an error or
  nil. The mutations are:
  \<^item> \<open>HSet k v\<close>: \<^verbatim>\<open>req.Header[k] = []string{v}\<close>, panics on a nil map;
  \<^item> \<open>HAdd k v\<close>: \<^verbatim>\<open>req.Header[k] = append(req.Header[k], v)\<close>, panics on a nil map;
  \<^item> \<open>HDel k\<close>: \<^verbatim>\<open>delete(req.Header, k)\<close>, nothing on a nil map;
  \<^item> \<open>HWrite k i v\<close>: \<^verbatim>\<open>req.Header[k][i] = v\<close>, panics when \<open>i\<close> is out of range;
  \<^item> \<open>SetMethod s\<close>: \<^verbatim>\<open>req.Method = s\<close>.
\<close>

datatype hop =
    HSet string string
  | HAdd string string
  | HDel string
  | HWrite string nat string
  | SetMethod string

text \<open>\<^verbatim>\<open>m[k]\<close> read from a map object: the nil slice when the key is absent.\<close>

definition map_load :: "(string \<times> slice) list \<Rightarrow> string \<Rightarrow> slice" where
  "map_load al k = (case map_of al k of None \<Rightarrow> SNil | Some s \<Rightarrow> s)"

definition exec_op :: "heap \<Rightarrow> addr \<Rightarrow> hop \<Rightarrow> heap res" where
  "exec_op h m opr =
     (if m < length (reqs h) then
        (case opr of
           SetMethod s \<Rightarrow> Returned (h\<lparr>reqs := (reqs h)[m := (reqs h ! m)\<lparr>Method := s\<rparr>]\<rparr>)
         | HSet k v \<Rightarrow>
             (case Header (reqs h ! m) of
                None \<Rightarrow> Panicked
              | Some hm \<Rightarrow>
                  (let (h', a) = new_array h [v] 0 in Returned (map_store h' hm k (SRef a 0 1))))
         | HAdd k v \<Rightarrow>
             (case Header (reqs h ! m) of
                None \<Rightarrow> Panicked
              | Some hm \<Rightarrow>
                  (let (h', s') = append_one h (map_load (hdr_at h hm) k) v
                   in Returned (map_store h' hm k s')))
         | HDel k \<Rightarrow>
             (case Header (reqs h ! m) of
                None \<Rightarrow> Returned h
              | Some hm \<Rightarrow>
                  Returned (h\<lparr>hdrs := (hdrs h)[hm := AList.delete k (hdrs h ! hm)]\<rparr>))
         | HWrite k i v \<Rightarrow>
             (case (case Header (reqs h ! m) of
                      None \<Rightarrow> SNil
                    | Some hm \<Rightarrow> map_load (hdr_at h hm) k) of
                SNil \<Rightarrow> Panicked
              | SRef a off n \<Rightarrow>
                  if i < n
                  then Returned (h\<lparr>arrs := (arrs h)[a := (arrs h ! a)[off + i := v]]\<rparr>)
                  else Panicked))
      else Panicked)"

fun exec_ops :: "heap \<Rightarrow> addr \<Rightarrow> hop list \<Rightarrow> heap res" where
  "exec_ops h m [] = Returned h"
| "exec_ops h m (opr # ops) =
     (case exec_op h m opr of Panicked \<Rightarrow> Panicked | Returned h' \<Rightarrow> exec_ops h' m ops)"

type_synonym RequestVisitor = "heap \<Rightarrow> addr \<Rightarrow> hop list \<times> error option"

definition call_visitor :: "RequestVisitor \<Rightarrow> heap \<Rightarrow> addr \<Rightarrow> (heap \<times> error option) res" where
  "call_visitor v h m =
     (case exec_ops h m (fst (v h m)) of
        Panicked \<Rightarrow> Panicked
      | Returned h' \<Rightarrow> Returned (h', snd (v h m)))"

section \<open>onEOFReader\<close>

text \<open>
  An \<^verbatim>\<open>io.ReadCloser\<close> is an object of some other package: its state and its two methods.
  \<open>rc_Read\<close> takes the state and the buffer \<^verbatim>\<open>p\<close> and gives the new state, the buffer as the
  call leaves it, \<^verbatim>\<open>n\<close> and \<^verbatim>\<open>err\<close>; \<open>rc_Close\<close> gives the new state and \<^verbatim>\<open>err\<close>.
\<close>

record 'r ReadCloser =
  rc_state :: 'r
  rc_Read :: "'r \<Rightarrow> byte list \<Rightarrow> 'r \<times> byte list \<times> int \<times> error option"
  rc_Close :: "'r \<Rightarrow> 'r \<times> error option"

text \<open>
  \<^verbatim>\<open>
  type onEOFReader struct {
      rc io.ReadCloser
      fn func()
  }
  \<close>
  \<^verbatim>\<open>fn\<close> is a closure with an effect on the rest of the program: a function on a world
  \<open>'w\<close>, which every method below takes and returns. \<open>None\<close> is the nil func.
\<close>

record ('r, 'w) onEOFReader =
  rc :: "'r ReadCloser"
  fn :: "('w \<Rightarrow> 'w) option"

text \<open>
  \<^verbatim>\<open>
  func (r *onEOFReader) runFunc() {
      if fn := r.fn; fn != nil {
          fn()
          r.fn = nil
      }
  }
  \<close>
\<close>

definition runFunc :: "('r, 'w) onEOFReader \<Rightarrow> 'w \<Rightarrow> ('r, 'w) onEOFReader \<times> 'w" where
  "runFunc r w = (case fn r of Some f \<Rightarrow> (r\<lparr>fn := None\<rparr>, f w) | None \<Rightarrow> (r, w))"

text \<open>
  \<^verbatim>\<open>
  func (r *onEOFReader) Read(p []byte) (n int, err error) {
      n, err = r.rc.Read(p)
      if err == io.EOF {
          r.runFunc()
      }
      return
  }
  \<close>
\<close>

definition Read ::
  "('r, 'w) onEOFReader \<Rightarrow> 'w \<Rightarrow> byte list
     \<Rightarrow> ('r, 'w) onEOFReader \<times> 'w \<times> byte list \<times> int \<times> error option" where
  "Read r w p =
     (case rc_Read (rc r) (rc_state (rc r)) p of
        (s', p', n, err) \<Rightarrow>
          (let r1 = r\<lparr>rc := (rc r)\<lparr>rc_state := s'\<rparr>\<rparr>;
               (r2, w2) = (if err = Some EOF then runFunc r1 w else (r1, w))
           in (r2, w2, p', n, err)))"

text \<open>
  \<^verbatim>\<open>
  func (r *onEOFReader) Close() error {
      err := r.rc.Close()
      r.runFunc()
      return err
  }
  \<close>
\<close>

definition Close ::
  "('r, 'w) onEOFReader \<Rightarrow> 'w \<Rightarrow> ('r, 'w) onEOFReader \<times> 'w \<times> error option" where
  "Close r w =
     (case rc_Close (rc r) (rc_state (rc r)) of
        (s', err) \<Rightarrow>
          (let r1 = r\<lparr>rc := (rc r)\<lparr>rc_state := s'\<rparr>\<rparr>;
               (r2, w2) = runFunc r1 w
           in (r2, w2, err)))"

text \<open>A consumer of the stream: a sequence of calls, each with what it returned.\<close>

datatype rcall = CRead "byte list" | CClose

datatype rret = RRead "byte list" int "error option" | RClose "error option"

fun consume ::
  "('r, 'w) onEOFReader \<Rightarrow> 'w \<Rightarrow> rcall list \<Rightarrow> ('r, 'w) onEOFReader \<times> 'w \<times> rret list" where
  "consume r w [] = (r, w, [])"
| "consume r w (CRead p # cs) =
     (case Read r w p of
        (r', w', p', n, err) \<Rightarrow>
          (case consume r' w' cs of (r'', w'', outs) \<Rightarrow> (r'', w'', RRead p' n err # outs)))"
| "consume r w (CClose # cs) =
     (case Close r w of
        (r', w', err) \<Rightarrow>
          (case consume r' w' cs of (r'', w'', outs) \<Rightarrow> (r'', w'', RClose err # outs)))"

text \<open>A return that triggers the callback: a \<^verbatim>\<open>Read\<close> that returned \<^verbatim>\<open>io.EOF\<close>, or a
  \<^verbatim>\<open>Close\<close>.\<close>

fun trigger :: "rret \<Rightarrow> bool" where
  "trigger (RRead p n err) = (err = Some EOF)"
| "trigger (RClose err) = True"

text \<open>The same calls made on the wrapped stream itself, with no wrapper in between: the
  stream as the calls leave it, and what it returned to each. This is what the wrapped
  stream answers, whatever \<^verbatim>\<open>onEOFReader\<close> does with it.\<close>

fun wrapped :: "'r ReadCloser \<Rightarrow> rcall list \<Rightarrow> 'r ReadCloser \<times> rret list" where
  "wrapped c [] = (c, [])"
| "wrapped c (CRead p # cs) =
     (case rc_Read c (rc_state c) p of
        (s', p', n, err) \<Rightarrow>
          (case wrapped (c\<lparr>rc_state := s'\<rparr>) cs of (c', outs) \<Rightarrow> (c', RRead p' n err # outs)))"
| "wrapped c (CClose # cs) =
     (case rc_Close c (rc_state c) of
        (s', err) \<Rightarrow>
          (case wrapped (c\<lparr>rc_state := s'\<rparr>) cs of (c', outs) \<Rightarrow> (c', RClose err # outs)))"

section \<open>Transport\<close>

record 'b Response =
  StatusCode :: int
  Body :: 'b

text \<open>
  The wrapped \<^verbatim>\<open>http.RoundTripper\<close> is an object of another package. \<open>rt_RoundTrip\<close> is its
  method \<^verbatim>\<open>RoundTrip\<close>: from the store and the request it is given, the pair
  \<^verbatim>\<open>(*http.Response, error)\<close>. It keeps the contract of \<^verbatim>\<open>http.RoundTripper\<close> and leaves the
  store as it is. \<open>rt_canceler\<close> tells whether the object also has the method
  \<^verbatim>\<open>CancelRequest(*http.Request)\<close>, which is what the type assertion in \<^verbatim>\<open>CancelRequest\<close>
  tests.
\<close>

record 'r RoundTripper =
  rt_RoundTrip :: "heap \<Rightarrow> addr \<Rightarrow> 'r ReadCloser Response option \<times> error option"
  rt_canceler :: bool

text \<open>
  \<^verbatim>\<open>
  type Transport struct {
      Base http.RoundTripper
      RequestVisitor RequestVisitor
      mu sync.Mutex // for modReq
      modReq map[*http.Request]*http.Request
  }
  \<close>
  The calls are modelled one after the other, so the mutex has no counterpart.
\<close>

record 'r Transport =
  Base :: "'r RoundTripper"
  RequestVisitor :: "RequestVisitor option"
  modReq :: "addr \<rightharpoonup> addr"

text \<open>
  \<^verbatim>\<open>
  func NewTransport(Base http.RoundTripper, RequestVisitor RequestVisitor) http.RoundTripper {
      if Base == nil {
          Base = http.DefaultTransport
      }
      return &Transport{
          Base:           Base,
          RequestVisitor: RequestVisitor,
          modReq:         make(map[*http.Request]*http.Request),
      }
  }
  \<close>
  \<^verbatim>\<open>http.DefaultTransport\<close> belongs to \<^verbatim>\<open>net/http\<close>: it is the parameter \<open>DefaultTransport\<close>.
\<close>

definition NewTransport ::
  "'r RoundTripper \<Rightarrow> 'r RoundTripper option \<Rightarrow> RequestVisitor option \<Rightarrow> 'r Transport" where
  "NewTransport DefaultTransport B V =
     \<lparr>Base = (case B of None \<Rightarrow> DefaultTransport | Some b \<Rightarrow> b),
      RequestVisitor = V,
      modReq = Map.empty\<rparr>"

text \<open>
  \<^verbatim>\<open>
  func (t *Transport) setModReq(orig, mod *http.Request) {
      t.mu.Lock()
      defer t.mu.Unlock()
      if mod == nil {
          delete(t.modReq, orig)
      } else {
          t.modReq[orig] = mod
      }
  }
  \<close>
\<close>

definition setModReq :: "'r Transport \<Rightarrow> addr \<Rightarrow> addr option \<Rightarrow> 'r Transport" where
  "setModReq t orig modr =
     (case modr of
        None \<Rightarrow> t\<lparr>modReq := (modReq t)(orig := None)\<rparr>
      | Some m \<Rightarrow> t\<lparr>modReq := (modReq t)(orig \<mapsto> m)\<rparr>)"

text \<open>What the program is at a given moment: the transport, the store, and the calls made
  to the wrapped transport so far.\<close>

datatype call = BaseRoundTrip addr | BaseCancelRequest "addr option"

record 'r state =
  tr :: "'r Transport"
  mem :: heap
  trace :: "call list"

text \<open>
  \<^verbatim>\<open>
  func (t *Transport) RoundTrip(req *http.Request) (*http.Response, error) {
      mod := cloneRequest(req)
      if t.RequestVisitor != nil {
          err := t.RequestVisitor(mod)
          if err != nil {
              return nil, err
          }
      }
      t.setModReq(req, mod)
      res, err := t.Base.RoundTrip(mod)
      if err != nil {
          t.setModReq(req, nil)
          return nil, err
      }
      res.Body = &onEOFReader{
          rc: res.Body,
          fn: func() { t.setModReq(req, nil) },
      }
      return res, nil
  }
  \<close>
  The closure acts on the transport. A wrapped transport that returns neither a response
  nor an error makes \<^verbatim>\<open>res.Body\<close> a nil dereference.
\<close>

definition RoundTrip ::
  "'r state \<Rightarrow> addr
     \<Rightarrow> ('r state \<times> ('r, 'r Transport) onEOFReader Response option \<times> error option) res" where
  "RoundTrip st req =
     (case cloneRequest (mem st) req of
        Panicked \<Rightarrow> Panicked
      | Returned (h1, modr) \<Rightarrow>
          (case (case RequestVisitor (tr st) of
                   None \<Rightarrow> Returned (h1, None)
                 | Some v \<Rightarrow> call_visitor v h1 modr) of
             Panicked \<Rightarrow> Panicked
           | Returned (h2, Some e) \<Rightarrow> Returned (st\<lparr>mem := h2\<rparr>, None, Some e)
           | Returned (h2, None) \<Rightarrow>
               (let st1 = st\<lparr>mem := h2, tr := setModReq (tr st) req (Some modr)\<rparr>;
                    (res, err) = rt_RoundTrip (Base (tr st1)) h2 modr;
                    st2 = st1\<lparr>trace := trace st1 @ [BaseRoundTrip modr]\<rparr>
                in (case err of
                      Some e \<Rightarrow> Returned (st2\<lparr>tr := setModReq (tr st2) req None\<rparr>, None, Some e)
                    | None \<Rightarrow>
                        (case res of
                           None \<Rightarrow> Panicked
                         | Some r \<Rightarrow>
                             Returned
                               (st2,
                                Some \<lparr>StatusCode = StatusCode r,
                                      Body = \<lparr>rc = Body r,
                                              fn = Some (\<lambda>t. setModReq t req None)\<rparr>\<rparr>,
                                None))))))"

text \<open>
  \<^verbatim>\<open>
  func (t *Transport) CancelRequest(req *http.Request) {
      type canceler interface {
          CancelRequest(*http.Request)
      }
      if cr, ok := t.Base.(canceler); ok {
          t.mu.Lock()
          modReq := t.modReq[req]
          delete(t.modReq, req)
          t.mu.Unlock()
          cr.CancelRequest(modReq)
      }
  }
  \<close>
  Reading a key the map does not hold gives the nil pointer, \<open>None\<close>.
\<close>

definition CancelRequest :: "'r state \<Rightarrow> addr \<Rightarrow> 'r state" where
  "CancelRequest st req =
     (if rt_canceler (Base (tr st)) then
        (let m = modReq (tr st) req;
             t' = (tr st)\<lparr>modReq := (modReq (tr st))(req := None)\<rparr>
         in st\<lparr>tr := t', trace := trace st @ [BaseCancelRequest m]\<rparr>)
      else st)"

section \<open>What a caller can observe\<close>

text \<open>\<open>keeps xs ys\<close>: the list \<open>ys\<close> starts with \<open>xs\<close>. For two stores, \<open>frame h h'\<close>: every
  object of \<open>h\<close> (request, header map, backing array) is in \<open>h'\<close> at the same address with
  the same content; \<open>h'\<close> may hold more objects.\<close>

definition keeps :: "'a list \<Rightarrow> 'a list \<Rightarrow> bool" where
  "keeps xs ys = (take (length xs) ys = xs)"

definition frame :: "heap \<Rightarrow> heap \<Rightarrow> bool" where
  "frame h h' =
     (keeps (reqs h) (reqs h') \<and> keeps (hdrs h) (hdrs h') \<and> keeps (arrs h) (arrs h')
      \<and> slack h' = slack h)"

text \<open>Go is memory safe: a slice that is not nil points into an allocated array and stays
  within it, and a header reference points to an allocated map. \<open>wf_req h r\<close> says so of the
  request at \<open>r\<close> and of what its header reaches.\<close>

fun wf_slice :: "heap \<Rightarrow> slice \<Rightarrow> bool" where
  "wf_slice h SNil = True"
| "wf_slice h (SRef a off n) = (a < length (arrs h) \<and> off + n \<le> length (arrs h ! a))"

definition wf_req :: "heap \<Rightarrow> addr \<Rightarrow> bool" where
  "wf_req h r =
     (r < length (reqs h) \<and>
      (case Header (reqs h ! r) of
         None \<Rightarrow> True
       | Some a \<Rightarrow> a < length (hdrs h) \<and> list_all (wf_slice h) (map snd (hdrs h ! a))))"

text \<open>The header collection of the request at \<open>r\<close>, as a reader of \<^verbatim>\<open>r.Header\<close> sees it:
  nil, or for every key the sequence of its values.\<close>

definition header_of :: "heap \<Rightarrow> addr \<Rightarrow> (string \<rightharpoonup> string list) option" where
  "header_of h r =
     (case Header (reqs h ! r) of
        None \<Rightarrow> None
      | Some a \<Rightarrow> Some (\<lambda>k. map_option (read_slice h) (map_of (hdr_at h a) k)))"

text \<open>\<open>owned n s\<close>: the slice \<open>s\<close> does not point into any of the first \<open>n\<close> arrays.
  \<open>fresh_header h0 h m\<close>: in the store \<open>h\<close>, the request at \<open>m\<close>, its header map and the
  arrays behind the values of that map are all objects that \<open>h0\<close> did not have.\<close>

fun owned :: "nat \<Rightarrow> slice \<Rightarrow> bool" where
  "owned n SNil = True"
| "owned n (SRef a off len) = (n \<le> a)"

definition fresh_header :: "heap \<Rightarrow> heap \<Rightarrow> addr \<Rightarrow> bool" where
  "fresh_header h0 h m =
     (length (reqs h0) \<le> m \<and> m < length (reqs h) \<and>
      (case Header (reqs h ! m) of
         None \<Rightarrow> False
       | Some hm \<Rightarrow> length (hdrs h0) \<le> hm \<and> hm < length (hdrs h) \<and>
           list_all (owned (length (arrs h0))) (map snd (hdrs h ! hm))))"

section \<open>The objects of the package's tests\<close>

text \<open>
  From \<^verbatim>\<open>requestmod_test.go\<close>: a store with the request of \<^verbatim>\<open>TestRegularRequest\<close> (at 0, with
  the header \<^verbatim>\<open>X-Test-Header-Copy: please\<close>) and the request of \<^verbatim>\<open>TestCancel\<close> (at 1, whose
  \<^verbatim>\<open>Header\<close> is nil); \<^verbatim>\<open>errorTransport\<close>, whose \<^verbatim>\<open>RoundTrip\<close> fails with "Whoops";
  \<^verbatim>\<open>errorMod\<close>, the visitor that fails with "Oh dear"; a visitor that sets
  \<^verbatim>\<open>X-Test-Header\<close> as the one of \<^verbatim>\<open>TestRegularRequest\<close> does, and also appends to and
  overwrites the values copied from the original. \<open>okTransport\<close> stands for a transport
  like \<^verbatim>\<open>http.DefaultTransport\<close>: it answers and it can cancel. Its body \<open>bytesBody\<close> hands
  out the bytes it holds, then \<^verbatim>\<open>io.EOF\<close>.
\<close>

definition testHeap :: heap where
  "testHeap =
     \<lparr>reqs = [\<lparr>Method = ''GET'', URL = 0, ReqBody = 0, Header = Some 0\<rparr>,
              \<lparr>Method = ''GET'', URL = 1, ReqBody = 1, Header = None\<rparr>],
      hdrs = [[(''X-Test-Header-Copy'', SRef 0 0 1)]],
      arrs = [[''please'']],
      slack = (\<lambda>n. 1)\<rparr>"

definition errorTransport :: "'r RoundTripper" where
  "errorTransport =
     \<lparr>rt_RoundTrip = (\<lambda>h m. (None, Some (Err ''Whoops''))), rt_canceler = False\<rparr>"

definition errorMod :: RequestVisitor where
  "errorMod = (\<lambda>h m. ([], Some (Err ''Oh dear'')))"

definition setTestHeader :: RequestVisitor where
  "setTestHeader =
     (\<lambda>h m. ([HSet ''X-Test-Header'' ''this is a test'',
               HAdd ''X-Test-Header-Copy'' ''again'',
               HWrite ''X-Test-Header-Copy'' 0 ''thanks''], None))"

definition bytesBody :: "byte list \<Rightarrow> byte list ReadCloser" where
  "bytesBody bs =
     \<lparr>rc_state = bs,
      rc_Read = (\<lambda>s p. if s = [] then (s, p, 0, Some EOF)
                        else (drop (length p) s,
                              take (length p) s @ drop (length s) p,
                              int (min (length p) (length s)), None)),
      rc_Close = (\<lambda>s. (s, None))\<rparr>"

definition okTransport :: "byte list RoundTripper" where
  "okTransport =
     \<lparr>rt_RoundTrip = (\<lambda>h m. (Some \<lparr>StatusCode = 200, Body = bytesBody [1, 2, 3]\<rparr>, None)),
      rt_canceler = True\<rparr>"

definition testState :: "'r RoundTripper \<Rightarrow> RequestVisitor option \<Rightarrow> 'r state" where
  "testState b v = \<lparr>tr = NewTransport errorTransport (Some b) v, mem = testHeap, trace = []\<rparr>"

section \<open>The constructor\<close>

text \<open>
  C8. \<^verbatim>\<open>NewTransport(nil, v)\<close> gives a transport whose \<^verbatim>\<open>Base\<close> is
  \<^verbatim>\<open>http.DefaultTransport\<close>, \<^verbatim>\<open>NewTransport(b, v)\<close> with \<^verbatim>\<open>b\<close> not nil one whose \<^verbatim>\<open>Base\<close> is
  \<^verbatim>\<open>b\<close>, and in both the tracking table is empty (and the visitor is the one given).
\<close>

theorem NewTransport_base_and_table:
  "Base (NewTransport d None v) = d
   \<and> Base (NewTransport d (Some b) v) = b
   \<and> modReq (NewTransport d None v) = Map.empty
   \<and> modReq (NewTransport d (Some b) v) = Map.empty
   \<and> RequestVisitor (NewTransport d B v) = v"
  by (simp add: NewTransport_def)

section \<open>The stream wrapper\<close>

lemma runFunc_fired: "fn r = None \<Longrightarrow> runFunc r w = (r, w)"
  by (simp add: runFunc_def)

text \<open>Once the callback is cleared, nothing a consumer does runs it again.\<close>

lemma consume_fired:
  "fn r = None \<Longrightarrow> fst (snd (consume r w cs)) = w \<and> fn (fst (consume r w cs)) = None"
proof (induction cs arbitrary: r w)
  case Nil
  then show ?case by simp
next
  case (Cons c cs)
  show ?case
  proof (cases c)
    case (CRead p)
    obtain s' p' n err where rd: "rc_Read (rc r) (rc_state (rc r)) p = (s', p', n, err)"
      by (metis prod_cases4)
    let ?r1 = "r\<lparr>rc := (rc r)\<lparr>rc_state := s'\<rparr>\<rparr>"
    have f1: "fn ?r1 = None" using Cons.prems by simp
    have R: "Read r w p = (?r1, w, p', n, err)"
      using rd f1 by (simp add: Read_def Let_def runFunc_fired)
    show ?thesis using Cons.IH [OF f1, of w] CRead R
      by (simp add: case_prod_beta)
  next
    case CClose
    obtain s' err where cl: "rc_Close (rc r) (rc_state (rc r)) = (s', err)"
      by (metis surj_pair)
    let ?r1 = "r\<lparr>rc := (rc r)\<lparr>rc_state := s'\<rparr>\<rparr>"
    have f1: "fn ?r1 = None" using Cons.prems by simp
    have R: "Close r w = (?r1, w, err)"
      using cl f1 by (simp add: Close_def Let_def runFunc_fired)
    show ?thesis using Cons.IH [OF f1, of w] CClose R
      by (simp add: case_prod_beta)
  qed
qed

text \<open>The callback against what the wrapper itself returned to the consumer.\<close>

lemma consume_callback:
  "fst (snd (consume r w cs)) =
     (case fn r of
        None \<Rightarrow> w
      | Some f \<Rightarrow> if list_ex trigger (snd (snd (consume r w cs))) then f w else w)
   \<and> fn (fst (consume r w cs)) =
     (if list_ex trigger (snd (snd (consume r w cs))) then None else fn r)"
proof (induction cs arbitrary: r w)
  case Nil
  then show ?case by (simp split: option.splits)
next
  case (Cons c cs)
  show ?case
  proof (cases c)
    case (CRead p)
    obtain s' p' n err where rd: "rc_Read (rc r) (rc_state (rc r)) p = (s', p', n, err)"
      by (metis prod_cases4)
    let ?r1 = "r\<lparr>rc := (rc r)\<lparr>rc_state := s'\<rparr>\<rparr>"
    show ?thesis
    proof (cases "err = Some EOF")
      case True
      show ?thesis
      proof (cases "fn r")
        case None
        then show ?thesis using consume_fired [of r w "c # cs"] by simp
      next
        case (Some f)
        have R: "Read r w p = (?r1\<lparr>fn := None\<rparr>, f w, p', n, err)"
          using rd True Some by (simp add: Read_def Let_def runFunc_def)
        have "fn (?r1\<lparr>fn := None\<rparr>) = None" by simp
        from consume_fired [OF this, of "f w" cs] show ?thesis
          using CRead R True Some by (simp add: case_prod_beta)
      qed
    next
      case False
      have R: "Read r w p = (?r1, w, p', n, err)"
        using rd False by (simp add: Read_def Let_def)
      show ?thesis using Cons.IH [of ?r1 w] CRead R False
        by (simp add: case_prod_beta cong: option.case_cong)
    qed
  next
    case CClose
    obtain s' err where cl: "rc_Close (rc r) (rc_state (rc r)) = (s', err)"
      by (metis surj_pair)
    let ?r1 = "r\<lparr>rc := (rc r)\<lparr>rc_state := s'\<rparr>\<rparr>"
    show ?thesis
    proof (cases "fn r")
      case None
      then show ?thesis using consume_fired [of r w "c # cs"] by simp
    next
      case (Some f)
      have R: "Close r w = (?r1\<lparr>fn := None\<rparr>, f w, err)"
        using cl Some by (simp add: Close_def Let_def runFunc_def)
      have "fn (?r1\<lparr>fn := None\<rparr>) = None" by simp
      from consume_fired [OF this, of "f w" cs] show ?thesis
        using CClose R Some by (simp add: case_prod_beta)
    qed
  qed
qed

text \<open>The wrapper hands the wrapped stream's answers on as they are, and leaves the
  wrapped stream as its own methods leave it.\<close>

lemma Read_delegates:
  assumes "rc_Read (rc r) (rc_state (rc r)) p = (s', p', n, err)"
  shows "snd (snd (Read r w p)) = (p', n, err)
    \<and> rc (fst (Read r w p)) = (rc r)\<lparr>rc_state := s'\<rparr>"
  using assms by (simp add: Read_def Let_def runFunc_def case_prod_beta split: option.splits)

lemma Close_delegates:
  assumes "rc_Close (rc r) (rc_state (rc r)) = (s', err)"
  shows "snd (snd (Close r w)) = err
    \<and> rc (fst (Close r w)) = (rc r)\<lparr>rc_state := s'\<rparr>"
  using assms by (simp add: Close_def Let_def runFunc_def case_prod_beta split: option.splits)

lemma consume_wrapped:
  "snd (snd (consume r w cs)) = snd (wrapped (rc r) cs)
   \<and> rc (fst (consume r w cs)) = fst (wrapped (rc r) cs)"
proof (induction cs arbitrary: r w)
  case Nil
  then show ?case by simp
next
  case (Cons c cs)
  show ?case
  proof (cases c)
    case (CRead p)
    obtain s' p' n err where rd: "rc_Read (rc r) (rc_state (rc r)) p = (s', p', n, err)"
      by (metis prod_cases4)
    note D = Read_delegates [OF rd, of w]
    obtain r1 w1 where R: "Read r w p = (r1, w1, p', n, err)"
      using D by (metis prod.collapse)
    have r1: "rc r1 = (rc r)\<lparr>rc_state := s'\<rparr>" using D R by simp
    show ?thesis using Cons.IH [of r1 w1] CRead R rd r1
      by (simp add: case_prod_beta)
  next
    case CClose
    obtain s' err where cl: "rc_Close (rc r) (rc_state (rc r)) = (s', err)"
      by (metis surj_pair)
    note D = Close_delegates [OF cl, of w]
    obtain r1 w1 where R: "Close r w = (r1, w1, err)"
      using D by (metis prod.collapse)
    have r1: "rc r1 = (rc r)\<lparr>rc_state := s'\<rparr>" using D R by simp
    show ?thesis using Cons.IH [of r1 w1] CClose R cl r1
      by (simp add: case_prod_beta)
  qed
qed

text \<open>
  C5. Whatever sequence of \<^verbatim>\<open>Read\<close> and \<^verbatim>\<open>Close\<close> calls a consumer makes on an
  \<^verbatim>\<open>onEOFReader\<close>, and whatever the wrapped stream answers: the consumer gets the wrapped
  stream's answers as they are, the wrapped stream is left as the same calls made on it
  directly leave it, and the world at the end is the world at the start with the callback
  applied once if the wrapped stream returned \<^verbatim>\<open>io.EOF\<close> to some \<^verbatim>\<open>Read\<close> or some call was a
  \<^verbatim>\<open>Close\<close>, and the world at the start otherwise. After such a trigger the callback is
  cleared. So reading until the wrapped stream reports its end, closing, or both in any
  order run the callback exactly once: the callback is any function, and "applied once" is
  neither zero nor two times. A reader built with a nil callback never runs one.
\<close>

theorem onEOFReader_callback_once:
  "snd (snd (consume r w cs)) = snd (wrapped (rc r) cs)
   \<and> rc (fst (consume r w cs)) = fst (wrapped (rc r) cs)
   \<and> fst (snd (consume r w cs)) =
       (case fn r of
          None \<Rightarrow> w
        | Some f \<Rightarrow> if list_ex trigger (snd (wrapped (rc r) cs)) then f w else w)
   \<and> fn (fst (consume r w cs)) =
       (if list_ex trigger (snd (wrapped (rc r) cs)) then None else fn r)"
proof -
  have o: "snd (snd (consume r w cs)) = snd (wrapped (rc r) cs)"
    and c: "rc (fst (consume r w cs)) = fst (wrapped (rc r) cs)"
    using consume_wrapped [of r w cs] by simp_all
  have 1: "fst (snd (consume r w cs)) =
       (case fn r of
          None \<Rightarrow> w
        | Some f \<Rightarrow> if list_ex trigger (snd (snd (consume r w cs))) then f w else w)"
    and 2: "fn (fst (consume r w cs)) =
       (if list_ex trigger (snd (snd (consume r w cs))) then None else fn r)"
    using consume_callback [of r w cs] by simp_all
  show ?thesis using c 1 2 unfolding o by (intro conjI) simp_all
qed

text \<open>Reading to the end of the wrapped stream, and nothing else, runs the callback; so
  does a \<^verbatim>\<open>Close\<close> alone; the end followed by a \<^verbatim>\<open>Close\<close>, or two of each, run it once. Here
  the world counts the runs.\<close>

lemma onEOFReader_callback_once_examples:
  "fst (snd (consume \<lparr>rc = bytesBody [1, 2, 3], fn = Some Suc\<rparr> (0::nat)
        [CRead [0, 0], CRead [0, 0], CRead [0, 0]])) = 1
   \<and> fst (snd (consume \<lparr>rc = bytesBody [1, 2, 3], fn = Some Suc\<rparr> (0::nat) [CClose])) = 1
   \<and> fst (snd (consume \<lparr>rc = bytesBody [1, 2, 3], fn = Some Suc\<rparr> (0::nat)
        [CRead [0, 0], CRead [0, 0], CRead [0, 0], CRead [0, 0], CClose, CClose])) = 1
   \<and> fst (snd (consume \<lparr>rc = bytesBody [1, 2, 3], fn = Some Suc\<rparr> (0::nat)
        [CRead [0, 0], CRead [0, 0]])) = 0
   \<and> snd (snd (consume \<lparr>rc = bytesBody [1, 2, 3], fn = Some Suc\<rparr> (0::nat)
        [CRead [0, 0], CRead [0, 0], CRead [0, 0]]))
       = [RRead [1, 2] 2 None, RRead [3, 0] 1 None, RRead [0, 0] 0 (Some EOF)]"
  by (simp add: bytesBody_def Read_def Close_def runFunc_def)

text \<open>
  C6. \<^verbatim>\<open>Close\<close> calls the wrapped stream's \<^verbatim>\<open>Close\<close> (the wrapped stream is left in the state
  its \<^verbatim>\<open>Close\<close> gives) and returns what it returned, whether the callback is still set or
  already cleared.
\<close>

theorem Close_returns_wrapped_result:
  "snd (snd (Close r w)) = snd (rc_Close (rc r) (rc_state (rc r)))
   \<and> rc_state (rc (fst (Close r w))) = fst (rc_Close (rc r) (rc_state (rc r)))"
  by (simp add: Close_def runFunc_def Let_def case_prod_beta split: option.splits)

text \<open>
  C9. When the wrapped stream's \<^verbatim>\<open>Read\<close> returns an error that is not \<^verbatim>\<open>io.EOF\<close> (or no
  error), \<^verbatim>\<open>Read\<close> returns the buffer, the count and the error as they are, the callback is
  not run (the world is unchanged, so an entry of the tracking table stays) and stays set;
  a \<^verbatim>\<open>Close\<close> after it runs the callback.
\<close>

theorem Read_error_other_than_EOF:
  assumes "rc_Read (rc r) (rc_state (rc r)) p = (s', p', n, err)"
    and "err \<noteq> Some EOF"
  shows "Read r w p = (r\<lparr>rc := (rc r)\<lparr>rc_state := s'\<rparr>\<rparr>, w, p', n, err)
    \<and> fn (fst (Read r w p)) = fn r
    \<and> fst (snd (Close (fst (Read r w p)) (fst (snd (Read r w p))))) =
        (case fn r of None \<Rightarrow> w | Some f \<Rightarrow> f w)"
proof -
  have R: "Read r w p = (r\<lparr>rc := (rc r)\<lparr>rc_state := s'\<rparr>\<rparr>, w, p', n, err)"
    using assms by (simp add: Read_def Let_def)
  show ?thesis
    by (simp add: R Close_def runFunc_def Let_def case_prod_beta split: option.splits)
qed

theorem Read_error_other_than_EOF_witness:
  "Read \<lparr>rc = \<lparr>rc_state = (0::nat),
                rc_Read = (\<lambda>s p. (Suc s, p, 0, Some (Err ''connection reset''))),
                rc_Close = (\<lambda>s. (s, None))\<rparr>,
         fn = Some Suc\<rparr> (0::nat) [1, 2]
   = (\<lparr>rc = \<lparr>rc_state = Suc 0,
               rc_Read = (\<lambda>s p. (Suc s, p, 0, Some (Err ''connection reset''))),
               rc_Close = (\<lambda>s. (s, None))\<rparr>,
        fn = Some Suc\<rparr>, 0, [1, 2], 0, Some (Err ''connection reset''))"
  using Read_error_other_than_EOF
    [of "\<lparr>rc = \<lparr>rc_state = (0::nat),
                rc_Read = (\<lambda>s p. (Suc s, p, 0, Some (Err ''connection reset''))),
                rc_Close = (\<lambda>s. (s, None))\<rparr>,
         fn = Some Suc\<rparr>" "[1, 2]" "Suc 0" "[1, 2]" 0 "Some (Err ''connection reset'')" "0::nat"]
  by simp

section \<open>Stores that keep their objects\<close>

lemma keeps_refl: "keeps xs xs" by (simp add: keeps_def)

lemma keeps_length:
  assumes "keeps xs ys"
  shows "length xs \<le> length ys"
proof -
  have "length (take (length xs) ys) = length xs"
    using assms by (simp only: keeps_def)
  then show ?thesis by simp
qed

lemma keeps_append:
  assumes "keeps xs ys"
  shows "keeps xs (ys @ zs)"
proof -
  have "length xs \<le> length ys" using assms by (rule keeps_length)
  then have "take (length xs) (ys @ zs) = take (length xs) ys" by simp
  then show ?thesis using assms by (simp only: keeps_def)
qed

lemma keeps_update:
  assumes "keeps xs ys" and "length xs \<le> i"
  shows "keeps xs (ys[i := v])"
proof -
  have "take (length xs) (ys[i := v]) = take (length xs) ys"
    using assms(2) by simp
  then show ?thesis using assms(1) by (simp only: keeps_def)
qed

lemma keeps_nth:
  assumes "keeps xs ys" and "i < length xs"
  shows "ys ! i = xs ! i"
proof -
  have "take (length xs) ys ! i = ys ! i" using assms(2) by simp
  then show ?thesis using assms(1) by (simp only: keeps_def)
qed

lemma keeps_trans:
  assumes "keeps xs ys" and "keeps ys zs"
  shows "keeps xs zs"
proof -
  have le: "length xs \<le> length ys" using assms(1) by (rule keeps_length)
  have "take (length xs) zs = take (length xs) (take (length ys) zs)"
    using le by (simp add: min_def)
  also have "\<dots> = take (length xs) ys" using assms(2) by (simp only: keeps_def)
  also have "\<dots> = xs" using assms(1) by (simp only: keeps_def)
  finally show ?thesis by (simp only: keeps_def)
qed

lemma frame_refl: "frame h h" by (simp add: frame_def keeps_refl)

lemma frame_trans: "frame h h' \<Longrightarrow> frame h' h'' \<Longrightarrow> frame h h''"
  unfolding frame_def using keeps_trans by metis

lemma frame_read_slice:
  "frame h h' \<Longrightarrow> wf_slice h s \<Longrightarrow> read_slice h' s = read_slice h s"
proof (cases s)
  case SNil
  then show ?thesis by (simp add: read_slice_def)
next
  case (SRef a off n)
  assume f: "frame h h'" and w: "wf_slice h s"
  have a: "a < length (arrs h)" using w SRef by simp
  have k: "keeps (arrs h) (arrs h')" using f by (simp add: frame_def)
  have "a < length (arrs h')" using a keeps_length [OF k] by simp
  moreover have "arrs h' ! a = arrs h ! a" using k a by (rule keeps_nth)
  ultimately show ?thesis using SRef a by (simp add: read_slice_def arr_at_def)
qed

lemma frame_wf_slice: "frame h h' \<Longrightarrow> wf_slice h s \<Longrightarrow> wf_slice h' s"
proof (cases s)
  case SNil
  then show ?thesis by simp
next
  case (SRef a off n)
  assume f: "frame h h'" and w: "wf_slice h s"
  have a: "a < length (arrs h)" using w SRef by simp
  have k: "keeps (arrs h) (arrs h')" using f by (simp add: frame_def)
  have "a < length (arrs h')" using a keeps_length [OF k] by simp
  moreover have "arrs h' ! a = arrs h ! a" using k a by (rule keeps_nth)
  ultimately show ?thesis using SRef w by simp
qed

lemma frame_header_of:
  assumes "frame h h'" and "wf_req h r"
  shows "header_of h' r = header_of h r"
proof -
  have r: "r < length (reqs h)" using assms(2) by (simp add: wf_req_def)
  have eq: "reqs h' ! r = reqs h ! r" using assms(1) r by (simp add: frame_def keeps_nth)
  show ?thesis
  proof (cases "Header (reqs h ! r)")
    case None
    then show ?thesis by (simp add: header_of_def eq)
  next
    case (Some a)
    have a: "a < length (hdrs h)" and wf: "list_all (wf_slice h) (map snd (hdrs h ! a))"
      using assms(2) Some by (simp_all add: wf_req_def)
    have k: "keeps (hdrs h) (hdrs h')" using assms(1) by (simp add: frame_def)
    have "a < length (hdrs h')" using a keeps_length [OF k] by simp
    moreover have "hdrs h' ! a = hdrs h ! a" using k a by (rule keeps_nth)
    ultimately have ha: "hdr_at h' a = hdr_at h a"
      using a by (simp add: hdr_at_def)
    have "map_option (read_slice h') (map_of (hdr_at h a) k) =
          map_option (read_slice h) (map_of (hdr_at h a) k)" for k
    proof (cases "map_of (hdr_at h a) k")
      case None then show ?thesis by simp
    next
      case (Some s)
      then have "(k, s) \<in> set (hdrs h ! a)" using a map_of_SomeD [of "hdrs h ! a" k s]
        by (simp add: hdr_at_def)
      then have "wf_slice h s" using wf by (auto simp: list_all_iff)
      then show ?thesis using Some assms(1) by (simp add: frame_read_slice)
    qed
    then show ?thesis using Some by (simp add: header_of_def eq ha)
  qed
qed

lemma keeps_read_slice:
  assumes k: "keeps (arrs h) (arrs h')" and w: "wf_slice h s"
  shows "read_slice h' s = read_slice h s \<and> wf_slice h' s"
proof (cases s)
  case SNil
  then show ?thesis by (simp add: read_slice_def)
next
  case (SRef a off n)
  have a: "a < length (arrs h)" using w SRef by simp
  have "a < length (arrs h')" using a keeps_length [OF k] by simp
  moreover have "arrs h' ! a = arrs h ! a" using k a by (rule keeps_nth)
  ultimately show ?thesis using SRef a w by (simp add: read_slice_def arr_at_def)
qed

lemma read_slice_arrs: "arrs h' = arrs h \<Longrightarrow> read_slice h' s = read_slice h s"
  by (cases s) (simp_all add: read_slice_def arr_at_def)

lemma wf_slice_arrs: "arrs h' = arrs h \<Longrightarrow> wf_slice h' s = wf_slice h s"
  by (cases s) simp_all

lemma owned_mono: "owned n s \<Longrightarrow> m \<le> n \<Longrightarrow> owned m s"
  by (cases s) simp_all

lemma list_all_snd_update:
  "list_all P (map snd al) \<Longrightarrow> P v \<Longrightarrow> list_all P (map snd (AList.update k v al))"
  by (induction al) auto

lemma list_all_snd_delete:
  "list_all P (map snd al) \<Longrightarrow> list_all P (map snd (AList.delete k al))"
  by (induction al) auto

lemma append_nil_props:
  assumes "append_nil h vals = (h', s')"
  shows "reqs h' = reqs h \<and> hdrs h' = hdrs h \<and> slack h' = slack h
    \<and> keeps (arrs h) (arrs h') \<and> owned (length (arrs h)) s'
    \<and> wf_slice h' s' \<and> read_slice h' s' = vals"
proof (cases "vals = []")
  case True
  then show ?thesis using assms by (auto simp: append_nil_def keeps_refl read_slice_def)
next
  case False
  have k: "keeps (arrs h) (arrs h @ [vals @ replicate (slack h (length vals)) []])"
    by (rule keeps_append) (rule keeps_refl)
  show ?thesis using assms False k
    by (auto simp: append_nil_def new_array_def read_slice_def arr_at_def)
qed

lemma clone_entry_step:
  assumes F: "frame h h2" and W: "wf_slice h s"
  shows "\<exists>s'. hdrs (clone_entry hm h2 (k, s)) = (hdrs h2)[hm := AList.update k s' (hdrs h2 ! hm)]
     \<and> reqs (clone_entry hm h2 (k, s)) = reqs h2
     \<and> slack (clone_entry hm h2 (k, s)) = slack h2
     \<and> keeps (arrs h2) (arrs (clone_entry hm h2 (k, s)))
     \<and> owned (length (arrs h2)) s'
     \<and> wf_slice (clone_entry hm h2 (k, s)) s'
     \<and> read_slice (clone_entry hm h2 (k, s)) s' = read_slice h s"
proof -
  obtain h' s' where A: "append_nil h2 (read_slice h2 s) = (h', s')" by (metis surj_pair)
  note P = append_nil_props [OF A]
  have C: "clone_entry hm h2 (k, s) = map_store h' hm k s'"
    by (simp add: clone_entry_def A)
  have arr: "arrs (map_store h' hm k s') = arrs h'" by (simp add: map_store_def)
  have rs: "read_slice (map_store h' hm k s') s' = read_slice h' s'"
    by (rule read_slice_arrs) (simp add: map_store_def)
  have ws: "wf_slice (map_store h' hm k s') s' = wf_slice h' s'"
    by (rule wf_slice_arrs) (simp add: map_store_def)
  have "read_slice h2 s = read_slice h s" using F W by (rule frame_read_slice)
  then show ?thesis using P
    by (intro exI [of _ s']) (simp add: C arr rs ws, simp add: map_store_def)
qed

section \<open>The loop of cloneRequest\<close>

lemma list_all_wf_keeps:
  "keeps (arrs h) (arrs h') \<Longrightarrow> list_all (wf_slice h) ss \<Longrightarrow> list_all (wf_slice h') ss"
  by (induction ss) (simp_all add: keeps_read_slice)

lemma map_of_read_keeps:
  assumes k: "keeps (arrs h) (arrs h')" and w: "list_all (wf_slice h) (map snd al)"
  shows "map_option (read_slice h') (map_of al x) = map_option (read_slice h) (map_of al x)"
proof (cases "map_of al x")
  case None
  then show ?thesis by simp
next
  case (Some s)
  then have "(x, s) \<in> set al" by (rule map_of_SomeD)
  then have "wf_slice h s" using w by (auto simp: list_all_iff)
  then show ?thesis using Some keeps_read_slice [OF k] by simp
qed

lemma clone_loop:
  assumes F: "frame h h1" and HM: "hm < length (hdrs h1)" and L: "length (hdrs h) \<le> hm"
    and E: "hdrs h1 ! hm = []" and W: "list_all (wf_slice h) (map snd es)"
  shows "frame h (foldl (clone_entry hm) h1 es)
    \<and> reqs (foldl (clone_entry hm) h1 es) = reqs h1
    \<and> length (hdrs (foldl (clone_entry hm) h1 es)) = length (hdrs h1)
    \<and> list_all (owned (length (arrs h))) (map snd (hdrs (foldl (clone_entry hm) h1 es) ! hm))
    \<and> list_all (wf_slice (foldl (clone_entry hm) h1 es))
         (map snd (hdrs (foldl (clone_entry hm) h1 es) ! hm))
    \<and> (\<forall>x. map_option (read_slice (foldl (clone_entry hm) h1 es))
              (map_of (hdrs (foldl (clone_entry hm) h1 es) ! hm) x)
            = map_option (read_slice h) (map_of (rev es) x))"
  using W
proof (induction es rule: rev_induct)
  case Nil
  then show ?case using F E by simp
next
  case (snoc e es)
  obtain k s where e: "e = (k, s)" by (cases e)
  let ?h2 = "foldl (clone_entry hm) h1 es"
  let ?h3 = "clone_entry hm ?h2 (k, s)"
  have ws: "wf_slice h s" and wes: "list_all (wf_slice h) (map snd es)"
    using snoc.prems e by simp_all
  note IH = snoc.IH [OF wes]
  have F2: "frame h ?h2" using IH by simp
  have len2: "length (hdrs ?h2) = length (hdrs h1)" using IH by simp
  have own2: "list_all (owned (length (arrs h))) (map snd (hdrs ?h2 ! hm))" using IH by simp
  have wf2: "list_all (wf_slice ?h2) (map snd (hdrs ?h2 ! hm))" using IH by simp
  have view2: "map_option (read_slice ?h2) (map_of (hdrs ?h2 ! hm) x)
            = map_option (read_slice h) (map_of (rev es) x)" for x using IH by simp
  from clone_entry_step [OF F2 ws, of hm k] obtain s' where
    H: "hdrs ?h3 = (hdrs ?h2)[hm := AList.update k s' (hdrs ?h2 ! hm)]"
    and R: "reqs ?h3 = reqs ?h2" and S: "slack ?h3 = slack ?h2"
    and K: "keeps (arrs ?h2) (arrs ?h3)" and O: "owned (length (arrs ?h2)) s'"
    and Ws: "wf_slice ?h3 s'" and Rd: "read_slice ?h3 s' = read_slice h s"
    by blast
  have hm2: "hm < length (hdrs ?h2)" using HM len2 by simp
  have at: "hdrs ?h3 ! hm = AList.update k s' (hdrs ?h2 ! hm)" using H hm2 by simp
  have kr: "keeps (reqs h) (reqs ?h2)" and kh: "keeps (hdrs h) (hdrs ?h2)"
    and ka: "keeps (arrs h) (arrs ?h2)" and sl: "slack ?h2 = slack h"
    using F2 by (simp_all add: frame_def)
  have F3: "frame h ?h3"
    unfolding frame_def using kr R keeps_update [OF kh L] H keeps_trans [OF ka K] S sl
    by simp
  have o': "owned (length (arrs h)) s'"
    using O keeps_length [OF ka] by (rule owned_mono)
  have own3: "list_all (owned (length (arrs h))) (map snd (hdrs ?h3 ! hm))"
    unfolding at using own2 o' by (rule list_all_snd_update)
  have wf3: "list_all (wf_slice ?h3) (map snd (hdrs ?h3 ! hm))"
    unfolding at using list_all_wf_keeps [OF K wf2] Ws by (rule list_all_snd_update)
  have view3: "map_option (read_slice ?h3) (map_of (hdrs ?h3 ! hm) x)
            = map_option (read_slice h) (map_of (rev (es @ [(k, s)])) x)" for x
  proof (cases "x = k")
    case True
    then show ?thesis by (simp add: at update_conv' Rd)
  next
    case False
    have "map_option (read_slice ?h3) (map_of (hdrs ?h2 ! hm) x)
        = map_option (read_slice ?h2) (map_of (hdrs ?h2 ! hm) x)"
      using K wf2 by (rule map_of_read_keeps)
    then show ?thesis using False view2 [of x] by (simp add: at update_conv')
  qed
  have fold: "foldl (clone_entry hm) h1 (es @ [e]) = ?h3" by (simp add: e)
  show ?case
    unfolding fold e using F3 R IH len2 H own3 wf3 view3 by simp
qed

section \<open>What a visitor can reach\<close>

lemma append_one_props:
  assumes K: "keeps (arrs h0) (arrs h)" and O: "owned (length (arrs h0)) s"
    and A: "append_one h s v = (h', s')"
  shows "keeps (arrs h0) (arrs h') \<and> reqs h' = reqs h \<and> hdrs h' = hdrs h
    \<and> slack h' = slack h \<and> owned (length (arrs h0)) s'"
proof (cases s)
  case SNil
  have "keeps (arrs h0) (arrs h @ [[v] @ replicate (slack h 1) []])"
    using K by (rule keeps_append)
  then show ?thesis using A SNil keeps_length [OF K]
    by (auto simp: append_one_def new_array_def)
next
  case (SRef a off n)
  have a: "length (arrs h0) \<le> a" using O SRef by simp
  show ?thesis
  proof (cases "off + n < length (arr_at h a)")
    case True
    have "keeps (arrs h0) ((arrs h)[a := (arrs h ! a)[off + n := v]])"
      using K a by (rule keeps_update)
    then show ?thesis using A SRef True a by (auto simp: append_one_def)
  next
    case False
    have "keeps (arrs h0) (arrs h @ [(read_slice h s @ [v]) @ replicate (slack h (Suc n)) []])"
      using K by (rule keeps_append)
    then show ?thesis using A SRef False keeps_length [OF K]
      by (auto simp: append_one_def new_array_def)
  qed
qed

lemma map_load_owned:
  "list_all (owned n) (map snd al) \<Longrightarrow> owned n (map_load al k)"
proof (cases "map_of al k")
  case None
  then show ?thesis by (simp add: map_load_def)
next
  case (Some s)
  assume w: "list_all (owned n) (map snd al)"
  from Some have "(k, s) \<in> set al" by (rule map_of_SomeD)
  then have "owned n s" using w by (auto simp: list_all_iff)
  then show ?thesis using Some by (simp add: map_load_def)
qed

lemma exec_op_frame:
  assumes F: "frame h0 h" and P: "fresh_header h0 h m" and X: "exec_op h m opr = Returned h'"
  shows "frame h0 h' \<and> fresh_header h0 h' m"
proof -
  obtain hm where m0: "length (reqs h0) \<le> m" and m1: "m < length (reqs h)"
    and hd: "Header (reqs h ! m) = Some hm"
    and hm0: "length (hdrs h0) \<le> hm" and hm1: "hm < length (hdrs h)"
    and own: "list_all (owned (length (arrs h0))) (map snd (hdrs h ! hm))"
    using P by (auto simp: fresh_header_def split: option.splits)
  have kr: "keeps (reqs h0) (reqs h)" and kh: "keeps (hdrs h0) (hdrs h)"
    and ka: "keeps (arrs h0) (arrs h)" and sl: "slack h = slack h0"
    using F by (simp_all add: frame_def)
  have hat: "hdr_at h hm = hdrs h ! hm" using hm1 by (simp add: hdr_at_def)
  show ?thesis
  proof (cases opr)
    case (SetMethod s)
    have h': "h' = h\<lparr>reqs := (reqs h)[m := (reqs h ! m)\<lparr>Method := s\<rparr>]\<rparr>"
      using X SetMethod m1 by (simp add: exec_op_def)
    have "keeps (reqs h0) ((reqs h)[m := (reqs h ! m)\<lparr>Method := s\<rparr>])"
      using kr m0 by (rule keeps_update)
    then show ?thesis using h' kh ka sl m0 m1 hd hm0 hm1 own
      by (simp add: frame_def fresh_header_def)
  next
    case (HSet k v)
    have h': "h' = map_store (h\<lparr>arrs := arrs h @ [[v]]\<rparr>) hm k (SRef (length (arrs h)) 0 1)"
      using X HSet m1 hd by (simp add: exec_op_def new_array_def)
    have k1: "keeps (arrs h0) (arrs h @ [[v]])" using ka by (rule keeps_append)
    have k2: "keeps (hdrs h0) ((hdrs h)[hm := AList.update k (SRef (length (arrs h)) 0 1) (hdrs h ! hm)])"
      using kh hm0 by (rule keeps_update)
    have o: "owned (length (arrs h0)) (SRef (length (arrs h)) 0 1)"
      using keeps_length [OF ka] by simp
    have "list_all (owned (length (arrs h0)))
            (map snd (AList.update k (SRef (length (arrs h)) 0 1) (hdrs h ! hm)))"
      using own o by (rule list_all_snd_update)
    then show ?thesis using h' kr k1 k2 sl m0 m1 hd hm0 hm1
      by (simp add: frame_def fresh_header_def map_store_def)
  next
    case (HAdd k v)
    obtain h1 s' where A: "append_one h (map_load (hdrs h ! hm) k) v = (h1, s')"
      by (metis surj_pair)
    have h': "h' = map_store h1 hm k s'"
      using X HAdd m1 hd hat A by (simp add: exec_op_def)
    have o: "owned (length (arrs h0)) (map_load (hdrs h ! hm) k)"
      using own by (rule map_load_owned)
    note Q = append_one_props [OF ka o A]
    have k2: "keeps (hdrs h0) ((hdrs h)[hm := AList.update k s' (hdrs h ! hm)])"
      using kh hm0 by (rule keeps_update)
    have "list_all (owned (length (arrs h0))) (map snd (AList.update k s' (hdrs h ! hm)))"
      using own Q by (simp add: list_all_snd_update)
    then show ?thesis using h' Q kr k2 sl m0 m1 hd hm0 hm1
      by (simp add: frame_def fresh_header_def map_store_def)
  next
    case (HDel k)
    have h': "h' = h\<lparr>hdrs := (hdrs h)[hm := AList.delete k (hdrs h ! hm)]\<rparr>"
      using X HDel m1 hd by (simp add: exec_op_def)
    have k2: "keeps (hdrs h0) ((hdrs h)[hm := AList.delete k (hdrs h ! hm)])"
      using kh hm0 by (rule keeps_update)
    have "list_all (owned (length (arrs h0))) (map snd (AList.delete k (hdrs h ! hm)))"
      using own by (rule list_all_snd_delete)
    then show ?thesis using h' kr k2 ka sl m0 m1 hd hm0 hm1
      by (simp add: frame_def fresh_header_def)
  next
    case (HWrite k i v)
    have o: "owned (length (arrs h0)) (map_load (hdrs h ! hm) k)"
      using own by (rule map_load_owned)
    show ?thesis
    proof (cases "map_load (hdrs h ! hm) k")
      case SNil
      then show ?thesis using X HWrite m1 hd hat by (simp add: exec_op_def)
    next
      case (SRef a off n)
      have a: "length (arrs h0) \<le> a" using o SRef by simp
      have h': "h' = h\<lparr>arrs := (arrs h)[a := (arrs h ! a)[off + i := v]]\<rparr>"
        using X HWrite m1 hd hat SRef by (simp add: exec_op_def split: if_splits)
      have "keeps (arrs h0) ((arrs h)[a := (arrs h ! a)[off + i := v]])"
        using ka a by (rule keeps_update)
      then show ?thesis using h' kr kh sl m0 m1 hd hm0 hm1 own
        by (simp add: frame_def fresh_header_def)
    qed
  qed
qed

lemma exec_ops_frame:
  "frame h0 h \<Longrightarrow> fresh_header h0 h m \<Longrightarrow> exec_ops h m ops = Returned h'
   \<Longrightarrow> frame h0 h' \<and> fresh_header h0 h' m"
proof (induction ops arbitrary: h)
  case Nil
  then show ?case by simp
next
  case (Cons opr ops)
  from Cons.prems(3) obtain h1 where 1: "exec_op h m opr = Returned h1"
    and 2: "exec_ops h1 m ops = Returned h'"
    by (auto split: res.splits)
  from exec_op_frame [OF Cons.prems(1,2) 1] have "frame h0 h1" "fresh_header h0 h1 m"
    by simp_all
  then show ?case using 2 by (rule Cons.IH)
qed

section \<open>The clone\<close>

lemma map_of_rev_distinct: "distinct (map fst xs) \<Longrightarrow> map_of (rev xs) = map_of xs"
proof (induction xs)
  case Nil
  then show ?case by simp
next
  case (Cons x xs)
  obtain k v where x: "x = (k, v)" by (cases x)
  have k: "map_of xs k = None" using Cons.prems x by (simp add: map_of_eq_None_iff)
  have IH: "map_of (rev xs) = map_of xs" using Cons by simp
  show ?case
  proof
    fix y
    show "map_of (rev (x # xs)) y = map_of (x # xs) y"
      using k by (cases "y = k") (simp_all add: x IH map_add_def split: option.splits)
  qed
qed

lemma clearjunk_subset: "p \<in> set (AList.clearjunk al) \<Longrightarrow> p \<in> set al"
proof -
  assume p: "p \<in> set (AList.clearjunk al)"
  obtain k s where ks: "p = (k, s)" by (cases p)
  have "map_of (AList.clearjunk al) k = Some s"
    using p ks by (simp add: distinct_clearjunk)
  then have "map_of al k = Some s" by (simp add: map_of_clearjunk)
  then show ?thesis using ks by (simp add: map_of_SomeD)
qed

lemma cloneRequest_props:
  assumes W: "wf_req h orig"
  shows "\<exists>h'. cloneRequest h orig = Returned (h', length (reqs h))
    \<and> frame h h'
    \<and> fresh_header h h' (length (reqs h))
    \<and> length (reqs h') = Suc (length (reqs h))
    \<and> reqs h' ! length (reqs h) = (reqs h ! orig)\<lparr>Header := Some (length (hdrs h))\<rparr>
    \<and> length (hdrs h) < length (hdrs h')
    \<and> list_all (wf_slice h') (map snd (hdrs h' ! length (hdrs h)))
    \<and> header_of h' (length (reqs h)) =
        Some (case header_of h orig of None \<Rightarrow> Map.empty | Some f \<Rightarrow> f)"
proof -
  let ?r = "reqs h ! orig"
  let ?hm = "length (hdrs h)"
  let ?m = "length (reqs h)"
  let ?h1 = "h\<lparr>reqs := reqs h @ [?r\<lparr>Header := Some ?hm\<rparr>], hdrs := hdrs h @ [[]]\<rparr>"
  let ?es = "case Header ?r of None \<Rightarrow> [] | Some a \<Rightarrow> AList.clearjunk (hdr_at h a)"
  let ?h' = "foldl (clone_entry ?hm) ?h1 ?es"
  have o: "orig < length (reqs h)" using W by (simp add: wf_req_def)
  have C: "cloneRequest h orig = Returned (?h', ?m)"
    using o by (simp add: cloneRequest_def Let_def)
  have F1: "frame h ?h1"
    by (simp add: frame_def keeps_refl keeps_append)
  have HM: "?hm < length (hdrs ?h1)" by simp
  have E: "hdrs ?h1 ! ?hm = []" by simp
  have Wes: "list_all (wf_slice h) (map snd ?es)"
  proof (cases "Header ?r")
    case None
    then show ?thesis by simp
  next
    case (Some a)
    have a: "a < length (hdrs h)" and wf: "list_all (wf_slice h) (map snd (hdrs h ! a))"
      using W Some by (simp_all add: wf_req_def)
    have "wf_slice h (snd p)" if "p \<in> set (AList.clearjunk (hdrs h ! a))" for p
      using clearjunk_subset [OF that] wf by (auto simp: list_all_iff)
    then show ?thesis using Some a by (simp add: hdr_at_def list_all_iff)
  qed
  note L = clone_loop [OF F1 HM order_refl E Wes]
  have F: "frame h ?h'" using L by simp
  have R: "reqs ?h' = reqs h @ [?r\<lparr>Header := Some ?hm\<rparr>]" using L by simp
  have LH: "length (hdrs ?h') = Suc ?hm" using L by simp
  have own: "list_all (owned (length (arrs h))) (map snd (hdrs ?h' ! ?hm))" using L by simp
  have wfs: "list_all (wf_slice ?h') (map snd (hdrs ?h' ! ?hm))" using L by simp
  have view: "map_option (read_slice ?h') (map_of (hdrs ?h' ! ?hm) x)
            = map_option (read_slice h) (map_of (rev ?es) x)" for x using L by simp
  have P: "fresh_header h ?h' ?m"
    using own by (simp add: fresh_header_def R LH)
  have hat: "hdr_at ?h' ?hm = hdrs ?h' ! ?hm" by (simp add: hdr_at_def LH)
  have es: "map_of (rev ?es) =
      (case Header ?r of None \<Rightarrow> Map.empty | Some a \<Rightarrow> map_of (hdr_at h a))"
  proof (cases "Header ?r")
    case None
    then show ?thesis by simp
  next
    case (Some a)
    have "map_of (rev (AList.clearjunk (hdr_at h a))) = map_of (AList.clearjunk (hdr_at h a))"
      by (rule map_of_rev_distinct) (rule distinct_clearjunk)
    then show ?thesis using Some by (simp add: map_of_clearjunk)
  qed
  have V0: "header_of ?h' ?m = Some (\<lambda>x. map_option (read_slice h) (map_of (rev ?es) x))"
    using view by (simp add: header_of_def R hat)
  have V1: "(\<lambda>x. map_option (read_slice h) (map_of (rev ?es) x)) =
      (case header_of h orig of None \<Rightarrow> Map.empty | Some f \<Rightarrow> f)"
    unfolding es by (cases "Header ?r") (simp_all add: header_of_def)
  have V: "header_of ?h' ?m = Some (case header_of h orig of None \<Rightarrow> Map.empty | Some f \<Rightarrow> f)"
    using V0 V1 by simp
  show ?thesis
    using C F P R LH wfs V by (intro exI [of _ ?h']) simp
qed

lemmas eval_defs =
  RoundTrip_def testState_def NewTransport_def errorTransport_def setTestHeader_def
  errorMod_def call_visitor_def exec_op_def map_load_def append_one_def setModReq_def
  cloneRequest_def testHeap_def hdr_at_def arr_at_def read_slice_def clone_entry_def
  append_nil_def new_array_def map_store_def Let_def

text \<open>
  C2. For a request of a well-formed store, \<^verbatim>\<open>cloneRequest\<close> returns a new request object
  (its address is the first unused one). Its fields are those of the original, the
  \<^verbatim>\<open>Header\<close> reference apart, which points to a new map; every value slice of that map
  lies in a new array; the map holds the keys of the original's with, key by key, the
  original's values (an empty map when the original's is nil). The store the caller had is
  intact, and stays so whatever sequence of header writes, appends in place, deletions and
  element writes is then run on the clone: the original's header collection is what it
  was.
\<close>

theorem cloneRequest_deep_copy:
  assumes "wf_req h orig"
  shows "\<exists>h'. cloneRequest h orig = Returned (h', length (reqs h))
    \<and> reqs h' ! length (reqs h) = (reqs h ! orig)\<lparr>Header := Some (length (hdrs h))\<rparr>
    \<and> frame h h'
    \<and> fresh_header h h' (length (reqs h))
    \<and> header_of h' (length (reqs h)) =
        Some (case header_of h orig of None \<Rightarrow> Map.empty | Some f \<Rightarrow> f)
    \<and> (\<forall>ops h''. exec_ops h' (length (reqs h)) ops = Returned h'' \<longrightarrow>
          frame h h'' \<and> header_of h'' orig = header_of h orig)"
proof -
  from cloneRequest_props [OF assms] obtain h' where
    C: "cloneRequest h orig = Returned (h', length (reqs h))"
    and F: "frame h h'" and P: "fresh_header h h' (length (reqs h))"
    and R: "reqs h' ! length (reqs h) = (reqs h ! orig)\<lparr>Header := Some (length (hdrs h))\<rparr>"
    and V: "header_of h' (length (reqs h)) =
        Some (case header_of h orig of None \<Rightarrow> Map.empty | Some f \<Rightarrow> f)"
    by blast
  have "frame h h'' \<and> header_of h'' orig = header_of h orig"
    if "exec_ops h' (length (reqs h)) ops = Returned h''" for ops h''
  proof -
    have "frame h h''" using exec_ops_frame [OF F P that] by simp
    then show ?thesis using assms by (simp add: frame_header_of)
  qed
  then show ?thesis using C F P R V by blast
qed

theorem cloneRequest_deep_copy_witness:
  "\<exists>h'. cloneRequest testHeap 0 = Returned (h', 2)
    \<and> Method (reqs h' ! 2) = ''GET'' \<and> Header (reqs h' ! 2) = Some 1
    \<and> hdrs h' ! 0 = [(''X-Test-Header-Copy'', SRef 0 0 1)]
    \<and> hdrs h' ! 1 = [(''X-Test-Header-Copy'', SRef 1 0 1)]
    \<and> arrs h' = [[''please''], [''please'', []]]
    \<and> frame testHeap h'
    \<and> header_of h' 2 = Some (case header_of testHeap 0 of None \<Rightarrow> Map.empty | Some f \<Rightarrow> f)"
proof -
  have w: "wf_req testHeap 0" by (simp add: wf_req_def testHeap_def)
  from cloneRequest_deep_copy [OF w] obtain h' where
    C: "cloneRequest testHeap 0 = Returned (h', length (reqs testHeap))"
    and F: "frame testHeap h'"
    and V: "header_of h' (length (reqs testHeap)) =
        Some (case header_of testHeap 0 of None \<Rightarrow> Map.empty | Some f \<Rightarrow> f)"
    by blast
  have l: "length (reqs testHeap) = 2" by (simp add: testHeap_def)
  have E: "cloneRequest testHeap 0 = Returned
      (\<lparr>reqs = [\<lparr>Method = ''GET'', URL = 0, ReqBody = 0, Header = Some 0\<rparr>,
               \<lparr>Method = ''GET'', URL = 1, ReqBody = 1, Header = None\<rparr>,
               \<lparr>Method = ''GET'', URL = 0, ReqBody = 0, Header = Some 1\<rparr>],
        hdrs = [[(''X-Test-Header-Copy'', SRef 0 0 1)], [(''X-Test-Header-Copy'', SRef 1 0 1)]],
        arrs = [[''please''], [''please'', []]],
        slack = (\<lambda>n. 1)\<rparr>, 2)"
    by (simp add: eval_defs)
  have "h' = \<lparr>reqs = [\<lparr>Method = ''GET'', URL = 0, ReqBody = 0, Header = Some 0\<rparr>,
               \<lparr>Method = ''GET'', URL = 1, ReqBody = 1, Header = None\<rparr>,
               \<lparr>Method = ''GET'', URL = 0, ReqBody = 0, Header = Some 1\<rparr>],
        hdrs = [[(''X-Test-Header-Copy'', SRef 0 0 1)], [(''X-Test-Header-Copy'', SRef 1 0 1)]],
        arrs = [[''please''], [''please'', []]],
        slack = (\<lambda>n. 1)\<rparr>" using C E by simp
  then show ?thesis using C F V l by (intro exI [of _ h']) simp
qed

text \<open>
  C10. When the original's \<^verbatim>\<open>Header\<close> is nil, the clone's \<^verbatim>\<open>Header\<close> is a map object, not
  nil, and empty; setting or adding a header on the clone does not panic, where the same
  write on the original would.
\<close>

theorem cloneRequest_nil_header:
  assumes "orig < length (reqs h)" and "Header (reqs h ! orig) = None"
  shows "\<exists>h'. cloneRequest h orig = Returned (h', length (reqs h))
    \<and> Header (reqs h' ! length (reqs h)) = Some (length (hdrs h))
    \<and> length (hdrs h) < length (hdrs h')
    \<and> hdrs h' ! length (hdrs h) = []
    \<and> exec_op h' (length (reqs h)) (HSet k v) \<noteq> Panicked
    \<and> exec_op h' (length (reqs h)) (HAdd k v) \<noteq> Panicked
    \<and> exec_op h orig (HSet k v) = Panicked"
  using assms
  by (simp add: cloneRequest_def Let_def exec_op_def new_array_def case_prod_beta)

theorem cloneRequest_nil_header_witness:
  "\<exists>h'. cloneRequest testHeap 1 = Returned (h', 2)
    \<and> Header (reqs h' ! 2) = Some 1
    \<and> hdrs h' ! 1 = []
    \<and> exec_op h' 2 (HSet ''User-Agent'' ''MyAwesomeClient'') \<noteq> Panicked
    \<and> exec_op testHeap 1 (HSet ''User-Agent'' ''MyAwesomeClient'') = Panicked"
proof -
  have a: "1 < length (reqs testHeap)" and b: "Header (reqs testHeap ! 1) = None"
    and l: "length (reqs testHeap) = 2" and l': "length (hdrs testHeap) = 1"
    by (simp_all add: testHeap_def)
  from cloneRequest_nil_header [OF a b, of "''User-Agent''" "''MyAwesomeClient''"]
  show ?thesis unfolding l l' by blast
qed

section \<open>RoundTrip and CancelRequest\<close>

lemma call_visitor_frame:
  assumes F: "frame h0 h" and P: "fresh_header h0 h m"
    and V: "(case vo of None \<Rightarrow> Returned (h, None) | Some v \<Rightarrow> call_visitor v h m)
            = Returned (h2, e)"
  shows "frame h0 h2 \<and> fresh_header h0 h2 m"
proof (cases vo)
  case None
  then show ?thesis using F P V by simp
next
  case (Some v)
  then have "exec_ops h m (fst (v h m)) = Returned h2"
    using V by (simp add: call_visitor_def split: res.splits)
  from exec_ops_frame [OF F P this] show ?thesis .
qed

lemma RoundTrip_mem:
  assumes "cloneRequest (mem st) req = Returned (h1, m)"
    and "(case RequestVisitor (tr st) of
            None \<Rightarrow> Returned (h1, None)
          | Some v \<Rightarrow> call_visitor v h1 m) = Returned (h2, e)"
    and "RoundTrip st req = Returned (st', res, err)"
  shows "mem st' = h2"
  using assms
  by (cases e; cases "rt_RoundTrip (Base (tr st)) h2 m")
     (auto simp: RoundTrip_def Let_def setModReq_def split: option.splits)

text \<open>
  C1. For a request of a well-formed store and any visitor (any sequence of header
  mutations of the working request, chosen from what the visitor sees), when
  \<^verbatim>\<open>RoundTrip\<close> returns, with a response or with an error, the original's header collection
  is what it was before the call: every key and its sequence of values. So is the request
  object itself, and every other object the store held.
\<close>

theorem RoundTrip_keeps_original_header:
  assumes W: "wf_req (mem st) req" and R: "RoundTrip st req = Returned (st', res, err)"
  shows "header_of (mem st') req = header_of (mem st) req
    \<and> reqs (mem st') ! req = reqs (mem st) ! req
    \<and> frame (mem st) (mem st')"
proof -
  let ?m = "length (reqs (mem st))"
  let ?X = "case RequestVisitor (tr st) of
              None \<Rightarrow> Returned (h1, None)
            | Some v \<Rightarrow> call_visitor v h1 ?m"
  from cloneRequest_props [OF W] obtain h1 where
    C: "cloneRequest (mem st) req = Returned (h1, ?m)"
    and F: "frame (mem st) h1" and P: "fresh_header (mem st) h1 ?m"
    by blast
  have "(case RequestVisitor (tr st) of
              None \<Rightarrow> Returned (h1, None)
            | Some v \<Rightarrow> call_visitor v h1 ?m) \<noteq> Panicked"
    using R C by (auto simp: RoundTrip_def)
  then obtain h2 e where V: "(case RequestVisitor (tr st) of
              None \<Rightarrow> Returned (h1, None)
            | Some v \<Rightarrow> call_visitor v h1 ?m) = Returned (h2, e)"
    by (metis res.exhaust surj_pair)
  have M: "mem st' = h2" using C V R by (rule RoundTrip_mem)
  have F2: "frame (mem st) (mem st')"
    using call_visitor_frame [OF F P V] M by simp
  have r: "req < length (reqs (mem st))" using W by (simp add: wf_req_def)
  have "keeps (reqs (mem st)) (reqs (mem st'))" using F2 by (simp add: frame_def)
  then have "reqs (mem st') ! req = reqs (mem st) ! req" using r by (rule keeps_nth)
  then show ?thesis using F2 W by (simp add: frame_header_of)
qed

theorem RoundTrip_keeps_original_header_witness:
  "\<exists>st' e. RoundTrip (testState (errorTransport :: unit RoundTripper) (Some setTestHeader)) 0
       = Returned (st', None, Some e)
     \<and> hdrs (mem st') ! 1 =
         [(''X-Test-Header-Copy'', SRef 1 0 2), (''X-Test-Header'', SRef 2 0 1)]
     \<and> arrs (mem st') = [[''please''], [''thanks'', ''again''], [''this is a test'']]
     \<and> header_of (mem st') 0 = header_of testHeap 0
     \<and> reqs (mem st') ! 0 = reqs testHeap ! 0"
proof -
  let ?st = "testState (errorTransport :: unit RoundTripper) (Some setTestHeader)"
  let ?st' = "?st\<lparr>mem :=
       \<lparr>reqs = [\<lparr>Method = ''GET'', URL = 0, ReqBody = 0, Header = Some 0\<rparr>,
                \<lparr>Method = ''GET'', URL = 1, ReqBody = 1, Header = None\<rparr>,
                \<lparr>Method = ''GET'', URL = 0, ReqBody = 0, Header = Some 1\<rparr>],
         hdrs = [[(''X-Test-Header-Copy'', SRef 0 0 1)],
                 [(''X-Test-Header-Copy'', SRef 1 0 2), (''X-Test-Header'', SRef 2 0 1)]],
         arrs = [[''please''], [''thanks'', ''again''], [''this is a test'']],
         slack = (\<lambda>n. 1)\<rparr>,
       trace := [BaseRoundTrip 2]\<rparr>"
  have m: "mem ?st = testHeap" by (simp add: testState_def)
  have w: "wf_req (mem ?st) 0" by (simp add: wf_req_def testState_def testHeap_def)
  have E: "RoundTrip ?st 0 = Returned (?st', None, Some (Err ''Whoops''))"
    by (simp add: eval_defs)
  note T = RoundTrip_keeps_original_header [OF w E]
  have A: "header_of (mem ?st') 0 = header_of testHeap 0"
    using T unfolding m by (rule conjunct1)
  have B: "reqs (mem ?st') ! 0 = reqs testHeap ! 0"
    using T unfolding m by (elim conjE)
  have H1: "hdrs (mem ?st') ! 1 =
         [(''X-Test-Header-Copy'', SRef 1 0 2), (''X-Test-Header'', SRef 2 0 1)]"
    by simp
  have H2: "arrs (mem ?st') = [[''please''], [''thanks'', ''again''], [''this is a test'']]"
    by simp
  show ?thesis
    by (rule exI [of _ ?st'], rule exI [of _ "Err ''Whoops''"]) (intro conjI E H1 H2 A B)
qed


lemma cloneRequest_returns:
  "req < length (reqs h) \<Longrightarrow> \<exists>h1. cloneRequest h req = Returned (h1, length (reqs h))"
  by (simp add: cloneRequest_def Let_def)

text \<open>
  C3. When the visitor returns an error on the clone, \<^verbatim>\<open>RoundTrip\<close> returns a nil response
  and that error; no call to the wrapped transport is made and the tracking table is the
  one before the call, so nothing was registered for the request.
\<close>

theorem RoundTrip_visitor_error:
  assumes "cloneRequest (mem st) req = Returned (h1, m)"
    and "RequestVisitor (tr st) = Some v"
    and "call_visitor v h1 m = Returned (h2, Some e)"
  shows "RoundTrip st req = Returned (st\<lparr>mem := h2\<rparr>, None, Some e)
    \<and> trace (st\<lparr>mem := h2\<rparr>) = trace st
    \<and> modReq (tr (st\<lparr>mem := h2\<rparr>)) = modReq (tr st)"
  using assms by (simp add: RoundTrip_def)

theorem RoundTrip_visitor_error_witness:
  "\<exists>h2. RoundTrip (testState (okTransport) (Some errorMod)) 0
       = Returned ((testState okTransport (Some errorMod))\<lparr>mem := h2\<rparr>,
                   None, Some (Err ''Oh dear''))
     \<and> trace ((testState okTransport (Some errorMod))\<lparr>mem := h2\<rparr>) = []
     \<and> modReq (tr ((testState okTransport (Some errorMod))\<lparr>mem := h2\<rparr>)) = Map.empty"
proof -
  let ?st = "testState okTransport (Some errorMod)"
  have "0 < length (reqs (mem ?st))" by (simp add: testState_def testHeap_def)
  from cloneRequest_returns [OF this] obtain h1 where
    C: "cloneRequest (mem ?st) 0 = Returned (h1, length (reqs (mem ?st)))" by blast
  have V: "RequestVisitor (tr ?st) = Some errorMod"
    by (simp add: testState_def NewTransport_def)
  have X: "call_visitor errorMod h1 (length (reqs (mem ?st))) = Returned (h1, Some (Err ''Oh dear''))"
    by (simp add: call_visitor_def errorMod_def)
  have t: "trace ?st = []" and m: "modReq (tr ?st) = Map.empty"
    by (simp_all add: testState_def NewTransport_def)
  from RoundTrip_visitor_error [OF C V X] show ?thesis
    unfolding t m by (rule exI [of _ h1])
qed

text \<open>
  C4. When the wrapped transport returns an error for the clone, \<^verbatim>\<open>RoundTrip\<close> returns a
  nil response and that error, and the tracking table holds no entry for the original
  request; the entries of other requests are untouched.
\<close>

theorem RoundTrip_base_error:
  assumes "cloneRequest (mem st) req = Returned (h1, m)"
    and "(case RequestVisitor (tr st) of
            None \<Rightarrow> Returned (h1, None)
          | Some v \<Rightarrow> call_visitor v h1 m) = Returned (h2, None)"
    and "rt_RoundTrip (Base (tr st)) h2 m = (res, Some e)"
  shows "\<exists>st'. RoundTrip st req = Returned (st', None, Some e)
    \<and> modReq (tr st') req = None
    \<and> modReq (tr st') = (modReq (tr st))(req := None)
    \<and> trace st' = trace st @ [BaseRoundTrip m]"
  using assms by (simp add: RoundTrip_def setModReq_def)

theorem RoundTrip_base_error_witness:
  "\<exists>st'. RoundTrip (testState (errorTransport :: unit RoundTripper) None) 0
        = Returned (st', None, Some (Err ''Whoops''))
     \<and> modReq (tr st') 0 = None
     \<and> trace st' = [BaseRoundTrip 2]"
proof -
  let ?st = "testState (errorTransport :: unit RoundTripper) None"
  have "0 < length (reqs (mem ?st))" by (simp add: testState_def testHeap_def)
  from cloneRequest_returns [OF this] obtain h1 where
    C: "cloneRequest (mem ?st) 0 = Returned (h1, length (reqs (mem ?st)))" by blast
  have V: "(case RequestVisitor (tr ?st) of
              None \<Rightarrow> Returned (h1, None)
            | Some v \<Rightarrow> call_visitor v h1 (length (reqs (mem ?st)))) = Returned (h1, None)"
    by (simp add: testState_def NewTransport_def)
  have B: "rt_RoundTrip (Base (tr ?st)) h1 (length (reqs (mem ?st))) = (None, Some (Err ''Whoops''))"
    by (simp add: testState_def NewTransport_def errorTransport_def)
  have t: "trace ?st = []" and l: "length (reqs (mem ?st)) = 2"
    by (simp_all add: testState_def testHeap_def)
  from RoundTrip_base_error [OF C V B] show ?thesis
    unfolding t l by auto
qed

text \<open>
  C7, as the code has it. When the wrapped transport cannot cancel, \<^verbatim>\<open>CancelRequest\<close> does
  nothing: no call, and the table is left as it is. When it can cancel and the table has
  no entry for the request, the table is unchanged and the wrapped transport's
  \<^verbatim>\<open>CancelRequest\<close> is called once, with the nil request. When it can cancel and the table
  maps the request to a working request, the entry is removed and the wrapped transport's
  \<^verbatim>\<open>CancelRequest\<close> is called once, with the working request.
\<close>

theorem CancelRequest_effect:
  "(\<not> rt_canceler (Base (tr st)) \<longrightarrow> CancelRequest st req = st)
   \<and> (rt_canceler (Base (tr st)) \<and> modReq (tr st) req = None \<longrightarrow>
        CancelRequest st req = st\<lparr>trace := trace st @ [BaseCancelRequest None]\<rparr>)
   \<and> (rt_canceler (Base (tr st)) \<and> modReq (tr st) req = Some m \<longrightarrow>
        CancelRequest st req =
          st\<lparr>tr := (tr st)\<lparr>modReq := (modReq (tr st))(req := None)\<rparr>,
             trace := trace st @ [BaseCancelRequest (Some m)]\<rparr>)"
  by (auto simp add: CancelRequest_def Let_def fun_upd_idem_iff)

lemma RoundTrip_ok_example:
  "\<exists>st1 res. RoundTrip (testState okTransport None) 0 = Returned (st1, Some res, None)
     \<and> modReq (tr st1) = [0 \<mapsto> 2] \<and> trace st1 = [BaseRoundTrip 2]
     \<and> Base (tr st1) = okTransport"
  by (simp add: eval_defs okTransport_def numeral_2_eq_2)

theorem CancelRequest_effect_witness:
  "CancelRequest (testState (errorTransport :: unit RoundTripper) None) 0
     = testState errorTransport None
   \<and> CancelRequest (testState okTransport None) 0
     = (testState okTransport None)\<lparr>trace := [BaseCancelRequest None]\<rparr>
   \<and> (\<exists>st1 res. RoundTrip (testState okTransport None) 0 = Returned (st1, Some res, None)
        \<and> modReq (tr st1) 0 = Some 2
        \<and> modReq (tr (CancelRequest st1 0)) 0 = None
        \<and> trace (CancelRequest st1 0) = [BaseRoundTrip 2, BaseCancelRequest (Some 2)])"
proof -
  have a: "\<not> rt_canceler (Base (tr (testState (errorTransport :: unit RoundTripper) None)))"
    by (simp add: testState_def NewTransport_def errorTransport_def)
  have b: "rt_canceler (Base (tr (testState okTransport None)))
           \<and> modReq (tr (testState okTransport None)) 0 = None"
    and t: "trace (testState okTransport None) = []"
    by (simp_all add: testState_def NewTransport_def okTransport_def)
  from RoundTrip_ok_example obtain st1 res where
    R: "RoundTrip (testState okTransport None) 0 = Returned (st1, Some res, None)"
    and M: "modReq (tr st1) = [0 \<mapsto> 2]" and T: "trace st1 = [BaseRoundTrip 2]"
    and B: "Base (tr st1) = okTransport"
    by blast
  have c: "rt_canceler (Base (tr st1)) \<and> modReq (tr st1) 0 = Some 2"
    using M B by (simp add: okTransport_def)
  have 1: "CancelRequest (testState (errorTransport :: unit RoundTripper) None) 0
     = testState errorTransport None"
    using CancelRequest_effect [of "testState (errorTransport :: unit RoundTripper) None" 0] a
    by blast
  have 2: "CancelRequest (testState okTransport None) 0
     = (testState okTransport None)\<lparr>trace := [BaseCancelRequest None]\<rparr>"
    using CancelRequest_effect [of "testState okTransport None" 0] b t by simp
  have 3: "CancelRequest st1 0 =
          st1\<lparr>tr := (tr st1)\<lparr>modReq := (modReq (tr st1))(0 := None)\<rparr>,
             trace := trace st1 @ [BaseCancelRequest (Some 2)]\<rparr>"
    using CancelRequest_effect [of st1 0 2] c by blast
  have "modReq (tr st1) 0 = Some 2 \<and> modReq (tr (CancelRequest st1 0)) 0 = None
        \<and> trace (CancelRequest st1 0) = [BaseRoundTrip 2, BaseCancelRequest (Some 2)]"
    unfolding 3 using M T by simp
  then show ?thesis using 1 2 R by blast
qed

text \<open>The claim as the specification words it fails: with a wrapped transport that can
  cancel and a table without an entry for the request, the call is not without effect. The
  wrapped transport's \<^verbatim>\<open>CancelRequest\<close> is invoked, with a nil request.\<close>

theorem CancelRequest_no_entry_counterexample:
  "modReq (tr (testState okTransport None)) 0 = None
   \<and> rt_canceler (Base (tr (testState okTransport None)))
   \<and> trace (testState okTransport None) = []
   \<and> trace (CancelRequest (testState okTransport None) 0) = [BaseCancelRequest None]
   \<and> CancelRequest (testState okTransport None) 0 \<noteq> testState okTransport None"
  by (simp add: CancelRequest_def testState_def NewTransport_def okTransport_def Let_def)

section \<open>An exchange from start to end\<close>

text \<open>A request sent through a transport that answers: the table maps the request to its
  working copy while the body is being read, and the entry is gone once the body has
  reached its end and is closed, once it has reached its end, or once it is closed. Two
  reads that do not reach the end leave the entry in place.\<close>

lemma RoundTrip_then_drain_and_close_example:
  "\<exists>st1 res. RoundTrip (testState okTransport None) 0 = Returned (st1, Some res, None)
     \<and> modReq (tr st1) 0 = Some 2
     \<and> snd (snd (consume (Body res) (tr st1) [CRead [0, 0], CRead [0, 0], CRead [0, 0], CClose]))
         = [RRead [1, 2] 2 None, RRead [3, 0] 1 None, RRead [0, 0] 0 (Some EOF), RClose None]
     \<and> modReq (fst (snd (consume (Body res) (tr st1)
            [CRead [0, 0], CRead [0, 0], CRead [0, 0], CClose]))) 0 = None
     \<and> modReq (fst (snd (consume (Body res) (tr st1)
            [CRead [0, 0], CRead [0, 0], CRead [0, 0]]))) 0 = None
     \<and> modReq (fst (snd (consume (Body res) (tr st1) [CClose]))) 0 = None
     \<and> modReq (fst (snd (consume (Body res) (tr st1) [CRead [0, 0], CRead [0, 0]]))) 0 = Some 2"
  by (simp add: eval_defs okTransport_def bytesBody_def Read_def Close_def runFunc_def)

end
